theory Spec2Isabelle
  imports Main
begin

section \<open>Values, slots and the signal\<close>

text \<open>
  \<^verbatim>\<open>Signal.ts\<close> compares callbacks and contexts with \<^verbatim>\<open>===\<close> and slots with
  \<^verbatim>\<open>indexOf\<close>, that is by reference. A function object is therefore modelled by its
  reference \<open>fn_ref\<close>, and a slot object carries the reference \<open>slot_ref\<close> it was
  allocated at. \<^verbatim>\<open>type Context = any\<close> is a JavaScript value: \<open>Undefined\<close> is what an
  omitted \<^verbatim>\<open>context?\<close> argument holds.
\<close>

type_synonym fn_ref = nat

datatype jsval =
    Undefined
  | Null
  | BoolVal bool
  | NumVal int
  | NaN
  | StrVal string
  | ObjRef nat

text \<open>\<^verbatim>\<open>a === b\<close>: equal values, equal references, and \<^verbatim>\<open>NaN\<close> equal to nothing.\<close>

definition strict_eq :: "jsval \<Rightarrow> jsval \<Rightarrow> bool" where
  "strict_eq a b = (a = b \<and> a \<noteq> NaN)"

text \<open>
  \<^verbatim>\<open>interface SignalSlot { callback; context; remove(): void }\<close>. The \<^verbatim>\<open>remove\<close> member
  is the closure \<^verbatim>\<open>() => this.removeSlot(slot)\<close>; it is the function \<open>slot_remove\<close> below.
\<close>

record slot =
  slot_ref :: nat
  callback :: fn_ref
  "context" :: jsval

text \<open>
  \<^verbatim>\<open>class Signal\<close>: the private array \<^verbatim>\<open>_slots\<close>, the aggregator (\<open>None\<close> is
  \<^verbatim>\<open>null\<close>), and the next free slot reference, which stands for the allocation of a
  new object by the literal in \<^verbatim>\<open>add\<close>.
\<close>

record ('r, 'r2) signal =
  u_slots :: "slot list"
  aggregator :: "('r list \<Rightarrow> 'r2) option"
  next_ref :: nat

text \<open>\<^verbatim>\<open>constructor(aggregator?)\<close>: \<^verbatim>\<open>aggregator || null\<close>.\<close>

definition Signal_new :: "('r list \<Rightarrow> 'r2) option \<Rightarrow> ('r, 'r2) signal" where
  "Signal_new agg = \<lparr>u_slots = [], aggregator = agg, next_ref = 0\<rparr>"

text \<open>\<^verbatim>\<open>get slots()\<close>.\<close>

definition slots :: "('r, 'r2) signal \<Rightarrow> slot list" where
  "slots sig = u_slots sig"

section \<open>Array primitives\<close>

text \<open>\<^verbatim>\<open>Array.prototype.findIndex\<close>: the first index whose element satisfies \<open>p\<close>, or \<open>-1\<close>.\<close>

fun findIndex :: "('a \<Rightarrow> bool) \<Rightarrow> 'a list \<Rightarrow> int" where
  "findIndex p [] = -1"
| "findIndex p (x # xs) =
     (if p x then 0
      else (let i = findIndex p xs in if i < 0 then -1 else i + 1))"

text \<open>\<^verbatim>\<open>Array.prototype.indexOf\<close> on slot objects: strict equality is equality of references.\<close>

definition indexOf :: "slot \<Rightarrow> slot list \<Rightarrow> int" where
  "indexOf s xs = findIndex (\<lambda>t. slot_ref t = slot_ref s) xs"

text \<open>
  \<^verbatim>\<open>Array.prototype.splice(start, deleteCount)\<close>: a negative start counts from the end,
  a start beyond the end is the end.
\<close>

definition array_splice :: "int \<Rightarrow> nat \<Rightarrow> 'a list \<Rightarrow> 'a list" where
  "array_splice start cnt xs =
     (let n = int (length xs);
          k = nat (if start < 0 then max (n + start) 0 else min start n)
      in take k xs @ drop (k + cnt) xs)"

section \<open>The registry operations\<close>

text \<open>\<^verbatim>\<open>add(callback, context?)\<close>: push a new slot object and return it.\<close>

definition add :: "fn_ref \<Rightarrow> jsval \<Rightarrow> ('r, 'r2) signal \<Rightarrow> slot \<times> ('r, 'r2) signal" where
  "add cb ctx sig =
     (let s = \<lparr>slot_ref = next_ref sig, callback = cb, context = ctx\<rparr>
      in (s, sig\<lparr>u_slots := u_slots sig @ [s], next_ref := Suc (next_ref sig)\<rparr>))"

text \<open>The predicate both \<^verbatim>\<open>remove\<close> and \<^verbatim>\<open>has\<close> pass to \<^verbatim>\<open>findIndex\<close>.\<close>

definition matches :: "fn_ref \<Rightarrow> jsval \<Rightarrow> slot \<Rightarrow> bool" where
  "matches cb ctx s = (callback s = cb \<and> strict_eq (context s) ctx)"

text \<open>\<^verbatim>\<open>remove(callback, context?)\<close>.\<close>

definition remove :: "fn_ref \<Rightarrow> jsval \<Rightarrow> ('r, 'r2) signal \<Rightarrow> bool \<times> ('r, 'r2) signal" where
  "remove cb ctx sig =
     (let index = findIndex (matches cb ctx) (u_slots sig)
      in if index \<ge> 0 then (True, sig\<lparr>u_slots := array_splice index 1 (u_slots sig)\<rparr>)
         else (False, sig))"

text \<open>\<^verbatim>\<open>has(callback, context?)\<close>.\<close>

definition has :: "fn_ref \<Rightarrow> jsval \<Rightarrow> ('r, 'r2) signal \<Rightarrow> bool" where
  "has cb ctx sig = (findIndex (matches cb ctx) (u_slots sig) \<ge> 0)"

text \<open>\<^verbatim>\<open>private removeSlot(slot)\<close>.\<close>

definition removeSlot :: "slot \<Rightarrow> ('r, 'r2) signal \<Rightarrow> ('r, 'r2) signal" where
  "removeSlot s sig =
     (let index = indexOf s (u_slots sig)
      in if index \<ge> 0 then sig\<lparr>u_slots := array_splice index 1 (u_slots sig)\<rparr> else sig)"

text \<open>The \<^verbatim>\<open>remove()\<close> member of the slot that \<^verbatim>\<open>add\<close> returned.\<close>

definition slot_remove :: "slot \<Rightarrow> ('r, 'r2) signal \<Rightarrow> ('r, 'r2) signal" where
  "slot_remove s sig = removeSlot s sig"

section \<open>Sequences of calls\<close>

text \<open>
  A caller of the signal (the owner, or a listener while it runs) performs a sequence of
  calls of the public interface: \<^verbatim>\<open>add\<close>, \<^verbatim>\<open>remove\<close> and the \<^verbatim>\<open>remove()\<close> of a slot
  it holds.
\<close>

datatype op = Add fn_ref jsval | Remove fn_ref jsval | HandleRemove slot

fun exec_op :: "op \<Rightarrow> ('r, 'r2) signal \<Rightarrow> ('r, 'r2) signal" where
  "exec_op (Add cb ctx) sig = snd (add cb ctx sig)"
| "exec_op (Remove cb ctx) sig = snd (remove cb ctx sig)"
| "exec_op (HandleRemove s) sig = slot_remove s sig"

fun exec_ops :: "op list \<Rightarrow> ('r, 'r2) signal \<Rightarrow> ('r, 'r2) signal" where
  "exec_ops [] sig = sig"
| "exec_ops (x # xs) sig = exec_ops xs (exec_op x sig)"

section \<open>Listeners and emit\<close>

text \<open>
  A listener is code from outside the signal. Called with its receiver and the emitted
  arguments, it makes calls on the signal (which may depend on the slots it sees) and then
  returns a value (\<open>Inr\<close>) or throws (\<open>Inl\<close>). The environment maps a function reference to
  the function. A listener that calls \<^verbatim>\<open>emit\<close> on the same signal again is outside this
  model.
\<close>

type_synonym ('a, 'r, 'e) listener = "jsval \<Rightarrow> 'a \<Rightarrow> slot list \<Rightarrow> op list \<times> ('e + 'r)"

type_synonym ('a, 'r, 'e) fn_env = "fn_ref \<Rightarrow> ('a, 'r, 'e) listener"

text \<open>
  \<^verbatim>\<open>slots.forEach(...)\<close> and \<^verbatim>\<open>slots.map(...)\<close> over the cloned array: each
  \<^verbatim>\<open>slot.callback.apply(slot.context, args)\<close> in turn, on the live signal. An exception
  leaves the loop. The result holds the signal afterwards, the calls made (slot and how
  its listener finished) and either the exception or the values returned.
\<close>

fun call_all ::
  "('a, 'r, 'e) fn_env \<Rightarrow> 'a \<Rightarrow> slot list \<Rightarrow> ('r, 'r2) signal \<Rightarrow>
     ('r, 'r2) signal \<times> (slot \<times> ('e + 'r)) list \<times> ('e + 'r list)" where
  "call_all env args [] sig = (sig, [], Inr [])"
| "call_all env args (s # ss) sig =
     (case env (callback s) (context s) args (u_slots sig) of
        (ops, Inl e) \<Rightarrow> (exec_ops ops sig, [(s, Inl e)], Inl e)
      | (ops, Inr v) \<Rightarrow>
          (case call_all env args ss (exec_ops ops sig) of
             (sig', tr, Inl e) \<Rightarrow> (sig', (s, Inr v) # tr, Inl e)
           | (sig', tr, Inr vs) \<Rightarrow> (sig', (s, Inr v) # tr, Inr (v # vs))))"

text \<open>
  What one \<^verbatim>\<open>emit\<close> call did: the listener calls in order, the argument of every call of
  the aggregator, the exception or the returned value (\<open>None\<close> is \<^verbatim>\<open>undefined\<close>), and
  the signal afterwards.
\<close>

record ('r, 'r2, 'e) emission =
  calls :: "(slot \<times> ('e + 'r)) list"
  agg_inputs :: "'r list list"
  outcome :: "'e + 'r2 option"
  after :: "('r, 'r2) signal"

text \<open>\<^verbatim>\<open>emit(...args)\<close>.\<close>

definition emit ::
  "('a, 'r, 'e) fn_env \<Rightarrow> 'a \<Rightarrow> ('r, 'r2) signal \<Rightarrow> ('r, 'r2, 'e) emission" where
  "emit env args sig =
     (let snapshot = u_slots sig
      in case aggregator sig of
           None \<Rightarrow>
             (case call_all env args snapshot sig of
                (sig', tr, Inl e) \<Rightarrow>
                  \<lparr>calls = tr, agg_inputs = [], outcome = Inl e, after = sig'\<rparr>
              | (sig', tr, Inr vs) \<Rightarrow>
                  \<lparr>calls = tr, agg_inputs = [], outcome = Inr None, after = sig'\<rparr>)
         | Some agg \<Rightarrow>
             (case call_all env args snapshot sig of
                (sig', tr, Inl e) \<Rightarrow>
                  \<lparr>calls = tr, agg_inputs = [], outcome = Inl e, after = sig'\<rparr>
              | (sig', tr, Inr vs) \<Rightarrow>
                  \<lparr>calls = tr, agg_inputs = [vs], outcome = Inr (Some (agg vs)), after = sig'\<rparr>))"

text \<open>The slots whose listeners an emission called, in call order.\<close>

definition invoked :: "('r, 'r2, 'e) emission \<Rightarrow> slot list" where
  "invoked em = map fst (calls em)"

section \<open>Aggregators\<close>

text \<open>\<^verbatim>\<open>Aggregators.ARRAY\<close>.\<close>

definition ARRAY :: "'t list \<Rightarrow> 't list" where
  "ARRAY items = items"

text \<open>
  \<^verbatim>\<open>Aggregators.AWAIT\<close> and \<^verbatim>\<open>AWAIT_VOID\<close> call the built-in \<^verbatim>\<open>Promise.all\<close>. A promise
  is given by what its reactions will see: it never settles, or it is fulfilled with a
  value, or rejected with a reason, and the natural number is the instant at which its
  reactions run (for a promise that is already settled when \<^verbatim>\<open>then\<close> is called on it,
  the instant of that call).
\<close>

datatype ('v, 'e) promise = Pending | Fulfilled nat 'v | Rejected nat 'e

text \<open>
  \<^verbatim>\<open>Promise.all\<close> as ECMAScript specifies it. The loop over the items registers, for
  the item at index \<open>i\<close>, a resolve-element function and the reject function of the result;
  a reaction job is the instant, the index and what the item settled to.
\<close>

type_synonym ('v, 'e) job = "nat \<times> nat \<times> ('e + 'v)"

fun jobs_from :: "nat \<Rightarrow> ('v, 'e) promise list \<Rightarrow> ('v, 'e) job list" where
  "jobs_from i [] = []"
| "jobs_from i (Pending # ps) = jobs_from (Suc i) ps"
| "jobs_from i (Fulfilled t v # ps) = (t, i, Inr v) # jobs_from (Suc i) ps"
| "jobs_from i (Rejected t e # ps) = (t, i, Inl e) # jobs_from (Suc i) ps"

text \<open>
  The record of \<^verbatim>\<open>Promise.all\<close>: the \<^verbatim>\<open>values\<close> list (\<open>None\<close> is a position not
  yet written), \<^verbatim>\<open>remainingElementsCount\<close>, and the result promise. The count starts at
  1, is incremented for every item, and decremented once after the loop; the result is
  resolved at once when that leaves zero.
\<close>

record ('v, 'e) all_state =
  all_values :: "'v option list"
  remaining :: nat
  capability :: "('v list, 'e) promise"

definition all_init :: "nat \<Rightarrow> ('v, 'e) all_state" where
  "all_init n =
     \<lparr>all_values = replicate n None, remaining = (1 + n) - 1,
      capability = (if (1 + n) - 1 = 0 then Fulfilled 0 [] else Pending)\<rparr>"

text \<open>
  One reaction job. A fulfilled item writes its value at its index and decrements the
  count, resolving the result with the values when the count reaches zero; a rejected item
  rejects the result. Resolving or rejecting a result that is already settled does nothing.
\<close>

fun all_step :: "('v, 'e) job \<Rightarrow> ('v, 'e) all_state \<Rightarrow> ('v, 'e) all_state" where
  "all_step (t, i, Inr v) st =
     (let vals = (all_values st)[i := Some v]; r = remaining st - 1
      in st\<lparr>all_values := vals, remaining := r,
            capability := (case capability st of
                             Pending \<Rightarrow> if r = 0 then Fulfilled t (map the vals) else Pending
                           | settled \<Rightarrow> settled)\<rparr>)"
| "all_step (t, i, Inl e) st =
     st\<lparr>capability := (case capability st of Pending \<Rightarrow> Rejected t e | settled \<Rightarrow> settled)\<rparr>"

text \<open>
  The jobs run in the order of their instants; jobs of one instant run in the order in
  which they were registered (the sort is stable).
\<close>

definition Promise_all :: "('v, 'e) promise list \<Rightarrow> ('v list, 'e) promise" where
  "Promise_all items =
     capability (fold all_step (sort_key fst (jobs_from 0 items)) (all_init (length items)))"

text \<open>\<^verbatim>\<open>Aggregators.AWAIT\<close>.\<close>

definition AWAIT :: "('v, 'e) promise list \<Rightarrow> ('v list, 'e) promise" where
  "AWAIT items = Promise_all items"

text \<open>
  \<^verbatim>\<open>Aggregators.AWAIT_VOID\<close>, an \<^verbatim>\<open>async\<close> function: its promise is fulfilled with
  \<^verbatim>\<open>undefined\<close> once the awaited promise is fulfilled, and rejected with the reason the
  \<^verbatim>\<open>await\<close> throws.
\<close>

definition AWAIT_VOID :: "(unit, 'e) promise list \<Rightarrow> (unit, 'e) promise" where
  "AWAIT_VOID items =
     (case Promise_all items of
        Pending \<Rightarrow> Pending
      | Fulfilled t vs \<Rightarrow> Fulfilled t ()
      | Rejected t e \<Rightarrow> Rejected t e)"

section \<open>Well-formed signals\<close>

text \<open>
  Every slot object in the array is a different object, allocated before the next free
  reference.
\<close>

definition wf_signal :: "('r, 'r2) signal \<Rightarrow> bool" where
  "wf_signal sig =
     (distinct (map slot_ref (u_slots sig))
      \<and> list_all (\<lambda>s. slot_ref s < next_ref sig) (u_slots sig))"

section \<open>The registry as the specification describes it\<close>

text \<open>
  Modelled from the specification's words, to be compared with the code: the registry
  keeps every slot ever added, in the order of the \<^verbatim>\<open>add\<close> calls, and the references
  of the slots removed since. Its view is the added slots that were not removed.
  \<^verbatim>\<open>remove(callback, context)\<close> removes the earliest registered slot that matches; the
  \<^verbatim>\<open>remove()\<close> of a slot removes that slot (a slot that was never added has no
  \<^verbatim>\<open>remove()\<close> to call).
\<close>

record registry =
  added :: "slot list"
  removed :: "nat list"

definition spec_new :: registry where
  "spec_new = \<lparr>added = [], removed = []\<rparr>"

definition spec_view :: "registry \<Rightarrow> slot list" where
  "spec_view r = filter (\<lambda>s. slot_ref s \<notin> set (removed r)) (added r)"

fun spec_op :: "op \<Rightarrow> registry \<Rightarrow> registry" where
  "spec_op (Add cb ctx) r =
     r\<lparr>added := added r @ [\<lparr>slot_ref = length (added r), callback = cb, context = ctx\<rparr>]\<rparr>"
| "spec_op (Remove cb ctx) r =
     (case find (matches cb ctx) (spec_view r) of
        None \<Rightarrow> r
      | Some s \<Rightarrow> r\<lparr>removed := slot_ref s # removed r\<rparr>)"
| "spec_op (HandleRemove s) r =
     (if slot_ref s < length (added r) then r\<lparr>removed := slot_ref s # removed r\<rparr> else r)"

fun spec_ops :: "op list \<Rightarrow> registry \<Rightarrow> registry" where
  "spec_ops [] r = r"
| "spec_ops (x # xs) r = spec_ops xs (spec_op x r)"

text \<open>The relation between a signal and the registry it implements.\<close>

definition refines :: "('r, 'r2) signal \<Rightarrow> registry \<Rightarrow> bool" where
  "refines sig r =
     (u_slots sig = spec_view r \<and> next_ref sig = length (added r)
      \<and> map slot_ref (added r) = [0..<length (added r)]
      \<and> (\<forall>k\<in>set (removed r). k < length (added r)))"

section \<open>Example signals and listeners\<close>

definition slot_at :: "nat \<Rightarrow> fn_ref \<Rightarrow> slot" where
  "slot_at r cb = \<lparr>slot_ref = r, callback = cb, context = Undefined\<rparr>"

definition two_slots :: "(int list \<Rightarrow> int list) option \<Rightarrow> (int, int list) signal" where
  "two_slots agg = exec_ops [Add 0 Undefined, Add 1 Undefined] (Signal_new agg)"

definition three_slots :: "(int list \<Rightarrow> int list) option \<Rightarrow> (int, int list) signal" where
  "three_slots agg =
     exec_ops [Add 0 Undefined, Add 1 Undefined, Add 2 Undefined] (Signal_new agg)"

definition dup_slots :: "(int list \<Rightarrow> int list) option \<Rightarrow> (int, int list) signal" where
  "dup_slots agg =
     exec_ops [Add 0 Undefined, Add 1 Undefined, Add 0 Undefined] (Signal_new agg)"

definition twice_added :: "(int list \<Rightarrow> int list) option \<Rightarrow> (int, int list) signal" where
  "twice_added agg = exec_ops [Add 0 Undefined, Add 0 Undefined] (Signal_new agg)"

text \<open>The first listener adds a slot and removes the second slot; both return.\<close>

definition env_mutating :: "(unit, int, string) fn_env" where
  "env_mutating f ctx args cur =
     (if f = 0 then ([Add 2 Undefined, Remove 1 Undefined], Inr 10) else ([], Inr 20))"

text \<open>The first listener removes the second slot; both return.\<close>

definition env_removing :: "(unit, int, string) fn_env" where
  "env_removing f ctx args cur =
     (if f = 0 then ([Remove 1 Undefined], Inr 10) else ([], Inr 20))"

text \<open>The first listener throws.\<close>

definition env_first_throws :: "(unit, int, string) fn_env" where
  "env_first_throws f ctx args cur =
     (if f = 0 then ([], Inl ''boom'') else ([], Inr 20))"

text \<open>The second listener throws.\<close>

definition env_second_throws :: "(unit, int, string) fn_env" where
  "env_second_throws f ctx args cur =
     (if f = 1 then ([], Inl ''boom'') else ([], Inr (10 * int f)))"

text \<open>No listener throws or touches the signal.\<close>

definition env_pure :: "(unit, int, string) fn_env" where
  "env_pure f ctx args cur = ([], Inr (10 * int f))"

section \<open>Facts about the array primitives\<close>

lemma findIndex_first:
  "\<forall>x\<in>set pre. \<not> p x \<Longrightarrow> p s \<Longrightarrow> findIndex p (pre @ s # post) = int (length pre)"
  by (induction pre) (auto simp: Let_def)

lemma findIndex_none: "\<forall>x\<in>set xs. \<not> p x \<Longrightarrow> findIndex p xs = -1"
  by (induction xs) (auto simp: Let_def)

lemma findIndex_neg_iff: "findIndex p xs < 0 \<longleftrightarrow> (\<forall>x\<in>set xs. \<not> p x)"
  by (induction xs) (auto simp: Let_def)

lemma splice_one [simp]: "array_splice (int (length pre)) (Suc 0) (pre @ s # post) = pre @ post"
  by (simp add: array_splice_def Let_def)

lemma distinct_map_splice:
  assumes "distinct (map f xs)"
  shows "distinct (map f (array_splice i n xs))"
proof -
  have "\<And>k. distinct (take k (map f xs) @ drop (k + n) (map f xs))"
    using assms by (auto simp: set_take_disj_set_drop_if_distinct)
  then show ?thesis by (simp add: array_splice_def Let_def take_map drop_map)
qed

lemma set_splice: "set (array_splice i n xs) \<subseteq> set xs"
  by (auto simp: array_splice_def Let_def dest: in_set_takeD in_set_dropD)

lemma find_split:
  "find P xs = Some s \<Longrightarrow> \<exists>pre post. xs = pre @ s # post \<and> (\<forall>x\<in>set pre. \<not> P x) \<and> P s"
proof (induction xs)
  case Nil
  then show ?case by simp
next
  case (Cons a xs)
  show ?case
  proof (cases "P a")
    case True
    with Cons.prems have "a = s" by simp
    with True show ?thesis by (intro exI [of _ "[]"] exI [of _ xs]) simp
  next
    case False
    with Cons obtain pre post where "xs = pre @ s # post" "\<forall>x\<in>set pre. \<not> P x" "P s"
      by auto
    with False show ?thesis by (intro exI [of _ "a # pre"] exI [of _ post]) simp
  qed
qed

lemma filter_ref_neq:
  assumes "distinct (map slot_ref (pre @ s # post))"
  shows "filter (\<lambda>t. slot_ref t \<noteq> slot_ref s) (pre @ s # post) = pre @ post"
proof -
  from assms have "\<forall>t\<in>set pre. slot_ref t \<noteq> slot_ref s" "\<forall>t\<in>set post. slot_ref t \<noteq> slot_ref s"
    by (auto simp: image_iff)
  then show ?thesis by simp
qed

section \<open>What one removal does\<close>

lemma remove_found:
  assumes "u_slots sig = pre @ s # post" "\<forall>t\<in>set pre. \<not> matches cb ctx t" "matches cb ctx s"
  shows "remove cb ctx sig = (True, sig\<lparr>u_slots := pre @ post\<rparr>)"
  using assms by (simp add: remove_def findIndex_first)

lemma remove_not_found:
  assumes "\<forall>t\<in>set (u_slots sig). \<not> matches cb ctx t"
  shows "remove cb ctx sig = (False, sig)"
  using assms by (simp add: remove_def findIndex_none)

lemma removeSlot_found:
  assumes "u_slots sig = pre @ s # post" "\<forall>t\<in>set pre. slot_ref t \<noteq> slot_ref h"
    "slot_ref s = slot_ref h"
  shows "removeSlot h sig = sig\<lparr>u_slots := pre @ post\<rparr>"
  using assms by (simp add: removeSlot_def indexOf_def findIndex_first)

lemma removeSlot_not_found:
  assumes "\<forall>t\<in>set (u_slots sig). slot_ref t \<noteq> slot_ref h"
  shows "removeSlot h sig = sig"
  using assms by (simp add: removeSlot_def indexOf_def findIndex_none)

section \<open>Well-formedness is invariant\<close>

lemma wf_new: "wf_signal (Signal_new agg)"
  by (simp add: wf_signal_def Signal_new_def)

lemma wf_add: "wf_signal sig \<Longrightarrow> wf_signal (snd (add cb ctx sig))"
  by (auto simp: wf_signal_def add_def Let_def list_all_iff)

lemma wf_remove: "wf_signal sig \<Longrightarrow> wf_signal (snd (remove cb ctx sig))"
  using set_splice [of _ _ "u_slots sig"]
  by (auto simp: wf_signal_def remove_def Let_def list_all_iff distinct_map_splice)

lemma wf_removeSlot: "wf_signal sig \<Longrightarrow> wf_signal (removeSlot s sig)"
  using set_splice [of _ _ "u_slots sig"]
  by (auto simp: wf_signal_def removeSlot_def Let_def list_all_iff distinct_map_splice)

lemma wf_exec_op: "wf_signal sig \<Longrightarrow> wf_signal (exec_op x sig)"
  by (cases x) (simp_all add: wf_add wf_remove wf_removeSlot slot_remove_def)

lemma wf_exec_ops: "wf_signal sig \<Longrightarrow> wf_signal (exec_ops xs sig)"
  by (induction xs arbitrary: sig) (simp_all add: wf_exec_op)

lemma reachable_wf: "wf_signal (exec_ops ops (Signal_new agg))"
  by (simp add: wf_exec_ops wf_new)

lemma wf_removeSlot_split:
  assumes "wf_signal sig" "u_slots sig = pre @ s # post"
  shows "removeSlot s sig = sig\<lparr>u_slots := pre @ post\<rparr>"
proof -
  from assms have "distinct (map slot_ref (pre @ s # post))" by (simp add: wf_signal_def)
  then have "\<forall>t\<in>set pre. slot_ref t \<noteq> slot_ref s" by (auto simp: image_iff)
  with assms(2) show ?thesis by (simp add: removeSlot_found)
qed

lemma wf_removeSlot_gone:
  assumes "wf_signal sig"
  shows "\<forall>t\<in>set (u_slots (removeSlot h sig)). slot_ref t \<noteq> slot_ref h"
proof (cases "\<exists>t\<in>set (u_slots sig). slot_ref t = slot_ref h")
  case True
  then obtain pre t post where sp: "u_slots sig = pre @ t # post" "slot_ref t = slot_ref h"
    by (metis split_list)
  from assms sp(1) have d: "distinct (map slot_ref (pre @ t # post))" by (simp add: wf_signal_def)
  then have np: "\<forall>x\<in>set pre. slot_ref x \<noteq> slot_ref h" using sp(2) by (auto simp: image_iff)
  from d have "\<forall>x\<in>set post. slot_ref x \<noteq> slot_ref h" using sp(2) by (auto simp: image_iff)
  with np removeSlot_found [OF sp(1) np sp(2)] show ?thesis by auto
next
  case False
  then show ?thesis by (simp add: removeSlot_not_found)
qed

lemma exec_ops_append: "exec_ops (xs @ ys) sig = exec_ops ys (exec_ops xs sig)"
  by (induction xs arbitrary: sig) simp_all

section \<open>The code implements the registry of the specification\<close>

lemma ref_bound:
  assumes "map slot_ref (added r) = [0..<length (added r)]" "s \<in> set (spec_view r)"
  shows "slot_ref s < length (added r)"
proof -
  have "s \<in> set (added r)" using assms(2) by (simp add: spec_view_def)
  then have "slot_ref s \<in> set (map slot_ref (added r))" by simp
  then have "slot_ref s \<in> set [0..<length (added r)]" by (simp only: assms(1))
  then show ?thesis by simp
qed

lemma distinct_view:
  "map slot_ref (added r) = [0..<length (added r)] \<Longrightarrow> distinct (map slot_ref (spec_view r))"
  by (metis distinct_map_filter distinct_upt spec_view_def)

lemma view_drop_ref:
  "spec_view (r\<lparr>removed := k # removed r\<rparr>) = filter (\<lambda>t. slot_ref t \<noteq> k) (spec_view r)"
  by (auto simp: spec_view_def intro: filter_cong)

lemma refines_new: "refines (Signal_new agg) spec_new"
  by (simp add: refines_def Signal_new_def spec_new_def spec_view_def)

lemma refines_add: "refines sig r \<Longrightarrow> refines (snd (add cb ctx sig)) (spec_op (Add cb ctx) r)"
  by (auto simp: refines_def add_def Let_def spec_view_def)

lemma refines_remove:
  assumes "refines sig r"
  shows "refines (snd (remove cb ctx sig)) (spec_op (Remove cb ctx) r)"
proof (cases "find (matches cb ctx) (spec_view r)")
  case None
  then have "\<forall>t\<in>set (u_slots sig). \<not> matches cb ctx t"
    using assms by (simp add: refines_def find_None_iff)
  then show ?thesis using assms None by (simp add: remove_not_found)
next
  case (Some s)
  then obtain pre post where sp: "spec_view r = pre @ s # post"
    "\<forall>x\<in>set pre. \<not> matches cb ctx x" "matches cb ctx s"
    using find_split by fastforce
  have d: "distinct (map slot_ref (pre @ s # post))"
    using assms distinct_view [of r] sp(1) by (simp add: refines_def)
  have "remove cb ctx sig = (True, sig\<lparr>u_slots := pre @ post\<rparr>)"
    using assms sp remove_found [of sig pre s post cb ctx] by (simp add: refines_def)
  moreover have "spec_view (r\<lparr>removed := slot_ref s # removed r\<rparr>) = pre @ post"
    using filter_ref_neq [OF d] by (simp add: view_drop_ref sp(1))
  moreover have "slot_ref s < length (added r)"
    using assms sp(1) ref_bound [of r s] by (simp add: refines_def)
  ultimately show ?thesis using assms Some by (simp add: refines_def)
qed

lemma refines_handle:
  assumes "refines sig r"
  shows "refines (slot_remove h sig) (spec_op (HandleRemove h) r)"
proof (cases "\<exists>t\<in>set (spec_view r). slot_ref t = slot_ref h")
  case True
  then obtain pre t post where sp: "spec_view r = pre @ t # post" "slot_ref t = slot_ref h"
    by (metis split_list)
  have d: "distinct (map slot_ref (pre @ t # post))"
    using assms distinct_view [of r] sp(1) by (simp add: refines_def)
  then have np: "\<forall>x\<in>set pre. slot_ref x \<noteq> slot_ref h"
    using sp(2) by (auto simp: image_iff)
  have "removeSlot h sig = sig\<lparr>u_slots := pre @ post\<rparr>"
    using assms sp np removeSlot_found [of sig pre t post h] by (simp add: refines_def)
  moreover have "spec_view (r\<lparr>removed := slot_ref h # removed r\<rparr>) = pre @ post"
    using filter_ref_neq [OF d] by (simp add: view_drop_ref sp)
  moreover have "slot_ref h < length (added r)"
    using assms sp ref_bound [of r t] by (simp add: refines_def)
  ultimately show ?thesis using assms by (simp add: refines_def slot_remove_def)
next
  case False
  then have nf: "\<forall>t\<in>set (u_slots sig). slot_ref t \<noteq> slot_ref h"
    using assms by (simp add: refines_def)
  have "filter (\<lambda>t. slot_ref t \<noteq> slot_ref h) (spec_view r) = spec_view r"
    using False by (simp add: filter_id_conv)
  then show ?thesis
    using assms nf by (simp add: refines_def slot_remove_def removeSlot_not_found view_drop_ref)
qed

lemma refines_exec_op: "refines sig r \<Longrightarrow> refines (exec_op x sig) (spec_op x r)"
  by (cases x) (simp_all only: exec_op.simps refines_add refines_remove refines_handle)

lemma refines_exec_ops: "refines sig r \<Longrightarrow> refines (exec_ops xs sig) (spec_ops xs r)"
  by (induction xs arbitrary: sig r) (simp_all add: refines_exec_op)

section \<open>The loop of emit\<close>

lemma call_all_prefix:
  "call_all env args ss sig = (sig', tr, res) \<Longrightarrow> map fst tr = take (length tr) ss"
proof (induction ss arbitrary: sig sig' tr res)
  case Nil
  then show ?case by simp
next
  case (Cons s ss)
  then show ?case
    by (auto split: prod.splits sum.splits)
qed

lemma call_all_Inr:
  "call_all env args ss sig = (sig', tr, Inr vs) \<Longrightarrow> map fst tr = ss \<and> map snd tr = map Inr vs"
proof (induction ss arbitrary: sig sig' tr vs)
  case Nil
  then show ?case by simp
next
  case (Cons s ss)
  then show ?case
    by (auto split: prod.splits sum.splits)
qed

lemma call_all_throw_last:
  "call_all env args ss sig = (sig', tr, res) \<Longrightarrow> k < length tr \<Longrightarrow> snd (tr ! k) = Inl e \<Longrightarrow>
     length tr = Suc k \<and> res = Inl e"
proof (induction ss arbitrary: sig sig' tr res k)
  case Nil
  then show ?case by simp
next
  case (Cons s ss)
  obtain ops out where e: "env (callback s) (context s) args (u_slots sig) = (ops, out)"
    by (cases "env (callback s) (context s) args (u_slots sig)")
  obtain sig2 tr2 res2 where c: "call_all env args ss (exec_ops ops sig) = (sig2, tr2, res2)"
    by (cases "call_all env args ss (exec_ops ops sig)") auto
  show ?case
  proof (cases out)
    case (Inl x)
    with e Cons.prems(1) have "tr = [(s, Inl x)]" "res = Inl x" by auto
    with Cons.prems(2,3) show ?thesis by simp
  next
    case (Inr v)
    with e c Cons.prems(1) have tr: "tr = (s, Inr v) # tr2"
      by (cases res2) auto
    from Inr e c Cons.prems(1) have res: "res2 = Inl e \<Longrightarrow> res = Inl e"
      by auto
    show ?thesis
    proof (cases k)
      case 0
      with tr Cons.prems(3) show ?thesis by simp
    next
      case (Suc j)
      with tr Cons.prems(2,3) have "j < length tr2" "snd (tr2 ! j) = Inl e" by simp_all
      from Cons.IH [OF c this] tr res Suc show ?thesis by simp
    qed
  qed
qed

lemma call_all_Inl:
  "call_all env args ss sig = (sig', tr, Inl e) \<Longrightarrow> tr \<noteq> [] \<and> snd (last tr) = Inl e"
proof (induction ss arbitrary: sig sig' tr)
  case Nil
  then show ?case by simp
next
  case (Cons s ss)
  obtain ops out where e: "env (callback s) (context s) args (u_slots sig) = (ops, out)"
    by (cases "env (callback s) (context s) args (u_slots sig)")
  obtain sig2 tr2 res2 where c: "call_all env args ss (exec_ops ops sig) = (sig2, tr2, res2)"
    by (cases "call_all env args ss (exec_ops ops sig)") auto
  show ?case
  proof (cases out)
    case (Inl x)
    with e Cons.prems show ?thesis by auto
  next
    case (Inr v)
    show ?thesis
    proof (cases res2)
      case (Inl x)
      with Inr e c Cons.prems have tr: "tr = (s, Inr v) # tr2" and x: "x = e" by auto
      from c Inl x have "call_all env args ss (exec_ops ops sig) = (sig2, tr2, Inl e)" by simp
      from Cons.IH [OF this] tr show ?thesis by simp
    next
      case (Inr vs)
      with \<open>out = Inr v\<close> e c Cons.prems show ?thesis by simp
    qed
  qed
qed

lemma call_all_progress:
  "call_all env args ss sig = (sig', tr, res) \<Longrightarrow> k < length ss \<Longrightarrow>
     \<forall>c\<in>set (take k tr). \<not> isl (snd c) \<Longrightarrow> k < length tr"
proof (induction ss arbitrary: sig sig' tr res k)
  case Nil
  then show ?case by simp
next
  case (Cons s ss)
  obtain ops out where e: "env (callback s) (context s) args (u_slots sig) = (ops, out)"
    by (cases "env (callback s) (context s) args (u_slots sig)")
  obtain sig2 tr2 res2 where c: "call_all env args ss (exec_ops ops sig) = (sig2, tr2, res2)"
    by (cases "call_all env args ss (exec_ops ops sig)") auto
  show ?case
  proof (cases out)
    case (Inl x)
    with e Cons.prems(1) have tr: "tr = [(s, Inl x)]" by auto
    show ?thesis
    proof (cases k)
      case 0
      with tr show ?thesis by simp
    next
      case (Suc j)
      with tr Cons.prems(3) show ?thesis by simp
    qed
  next
    case (Inr v)
    with e c Cons.prems(1) have tr: "tr = (s, Inr v) # tr2"
      by (cases res2) auto
    show ?thesis
    proof (cases k)
      case 0
      with tr show ?thesis by simp
    next
      case (Suc j)
      with tr Cons.prems(2,3) have "j < length ss" "\<forall>c\<in>set (take j tr2). \<not> isl (snd c)"
        by simp_all
      from Cons.IH [OF c this] tr Suc show ?thesis by simp
    qed
  qed
qed

lemma call_all_pure:
  "\<forall>s\<in>set ss. env (callback s) (context s) args (u_slots sig) = ([], Inr (ret s)) \<Longrightarrow>
     call_all env args ss sig = (sig, map (\<lambda>s. (s, Inr (ret s))) ss, Inr (map ret ss))"
  by (induction ss) simp_all

lemma call_all_reachable: "\<exists>ops. fst (call_all env args ss sig) = exec_ops ops sig"
proof (induction ss arbitrary: sig)
  case Nil
  show ?case by (rule exI [of _ "[]"]) simp
next
  case (Cons s ss)
  obtain ops out where e: "env (callback s) (context s) args (u_slots sig) = (ops, out)"
    by (cases "env (callback s) (context s) args (u_slots sig)")
  show ?case
  proof (cases out)
    case (Inl x)
    with e show ?thesis by (intro exI [of _ ops]) simp
  next
    case (Inr v)
    from Cons.IH [of "exec_ops ops sig"] obtain ops' where
      "fst (call_all env args ss (exec_ops ops sig)) = exec_ops ops' (exec_ops ops sig)"
      by blast
    with e Inr show ?thesis
      by (intro exI [of _ "ops @ ops'"])
         (auto simp: exec_ops_append split: prod.splits sum.splits)
  qed
qed

lemma emit_cases:
  obtains sig' tr e where "call_all env args (u_slots sig) sig = (sig', tr, Inl e)"
      "emit env args sig = \<lparr>calls = tr, agg_inputs = [], outcome = Inl e, after = sig'\<rparr>"
  | sig' tr vs where "call_all env args (u_slots sig) sig = (sig', tr, Inr vs)"
      "aggregator sig = None"
      "emit env args sig = \<lparr>calls = tr, agg_inputs = [], outcome = Inr None, after = sig'\<rparr>"
  | sig' tr vs agg where "call_all env args (u_slots sig) sig = (sig', tr, Inr vs)"
      "aggregator sig = Some agg"
      "emit env args sig =
         \<lparr>calls = tr, agg_inputs = [vs], outcome = Inr (Some (agg vs)), after = sig'\<rparr>"
proof -
  obtain sig' tr res where c: "call_all env args (u_slots sig) sig = (sig', tr, res)"
    by (cases "call_all env args (u_slots sig) sig") auto
  show ?thesis
  proof (cases res)
    case (Inl e)
    with c have "emit env args sig = \<lparr>calls = tr, agg_inputs = [], outcome = Inl e, after = sig'\<rparr>"
      by (simp add: emit_def Let_def split: option.splits)
    with c Inl that(1) show ?thesis by blast
  next
    case (Inr vs)
    show ?thesis
    proof (cases "aggregator sig")
      case None
      with c Inr have
        "emit env args sig = \<lparr>calls = tr, agg_inputs = [], outcome = Inr None, after = sig'\<rparr>"
        by (simp add: emit_def Let_def)
      with c Inr None that(2) show ?thesis by blast
    next
      case (Some agg)
      with c Inr have
        "emit env args sig =
           \<lparr>calls = tr, agg_inputs = [vs], outcome = Inr (Some (agg vs)), after = sig'\<rparr>"
        by (simp add: emit_def Let_def)
      with c Inr Some that(3) show ?thesis by blast
    qed
  qed
qed

lemma emit_prefix:
  "invoked (emit env args sig) = take (length (calls (emit env args sig))) (slots sig)"
  by (cases rule: emit_cases [of env args sig])
     (simp_all add: invoked_def slots_def call_all_prefix)

lemma emit_no_throw:
  "\<not> isl (outcome (emit env args sig)) \<Longrightarrow> invoked (emit env args sig) = slots sig"
  by (cases rule: emit_cases [of env args sig])
     (auto simp: invoked_def slots_def dest: call_all_Inr)

lemma emit_throw_stops:
  assumes "k < length (calls (emit env args sig))"
    and "snd (calls (emit env args sig) ! k) = Inl e"
  shows "length (calls (emit env args sig)) = Suc k \<and> outcome (emit env args sig) = Inl e"
  using assms
  by (cases rule: emit_cases [of env args sig]) (auto dest: call_all_throw_last)

lemma emit_throw_last_call:
  assumes "outcome (emit env args sig) = Inl e"
  shows "calls (emit env args sig) \<noteq> [] \<and> snd (last (calls (emit env args sig))) = Inl e"
  using assms
  by (cases rule: emit_cases [of env args sig]) (auto dest: call_all_Inl)

lemma emit_progress:
  assumes "k < length (slots sig)"
    and "\<forall>c\<in>set (take k (calls (emit env args sig))). \<not> isl (snd c)"
  shows "k < length (calls (emit env args sig))"
  using assms
  by (cases rule: emit_cases [of env args sig])
     (auto simp: slots_def dest: call_all_progress)

text \<open>
  The listeners change the signal only through its interface, so the signal after an
  emit is one that a sequence of calls reaches.
\<close>

lemma emit_after_reachable: "\<exists>ops. after (emit env args sig) = exec_ops ops sig"
proof -
  have "after (emit env args sig) = fst (call_all env args (u_slots sig) sig)"
    by (cases rule: emit_cases [of env args sig]) simp_all
  then show ?thesis using call_all_reachable [of env args "u_slots sig" sig] by simp
qed

lemma wf_emit: "wf_signal sig \<Longrightarrow> wf_signal (after (emit env args sig))"
proof -
  assume wf: "wf_signal sig"
  from emit_after_reachable [of env args sig] obtain ops where
    "after (emit env args sig) = exec_ops ops sig" by blast
  with wf show ?thesis by (simp add: wf_exec_ops)
qed

text \<open>\<^verbatim>\<open>has\<close> answers whether some registered slot matches.\<close>

lemma has_iff: "has cb ctx sig \<longleftrightarrow> (\<exists>s\<in>set (slots sig). matches cb ctx s)"
  using findIndex_neg_iff [of "matches cb ctx" "u_slots sig"]
  by (auto simp: has_def slots_def)

section \<open>The examples, evaluated\<close>

lemma two_slots_eval:
  "two_slots agg = \<lparr>u_slots = [slot_at 0 0, slot_at 1 1], aggregator = agg, next_ref = 2\<rparr>"
  by (simp add: two_slots_def Signal_new_def add_def slot_at_def Let_def)

lemma three_slots_eval:
  "three_slots agg =
     \<lparr>u_slots = [slot_at 0 0, slot_at 1 1, slot_at 2 2], aggregator = agg, next_ref = 3\<rparr>"
  by (simp add: three_slots_def Signal_new_def add_def slot_at_def Let_def)

lemma dup_slots_eval:
  "dup_slots agg =
     \<lparr>u_slots = [slot_at 0 0, slot_at 1 1, slot_at 2 0], aggregator = agg, next_ref = 3\<rparr>"
  by (simp add: dup_slots_def Signal_new_def add_def slot_at_def Let_def)

lemma emit_mutating_eval:
  "emit env_mutating () (two_slots None) =
     \<lparr>calls = [(slot_at 0 0, Inr 10), (slot_at 1 1, Inr 20)], agg_inputs = [],
      outcome = Inr None,
      after = \<lparr>u_slots = [slot_at 0 0, slot_at 2 2], aggregator = None, next_ref = 3\<rparr>\<rparr>"
  by (simp add: two_slots_eval emit_def env_mutating_def slot_at_def add_def remove_def
      matches_def strict_eq_def array_splice_def Let_def)

lemma emit_removing_eval:
  "emit env_removing () (two_slots None) =
     \<lparr>calls = [(slot_at 0 0, Inr 10), (slot_at 1 1, Inr 20)], agg_inputs = [],
      outcome = Inr None,
      after = \<lparr>u_slots = [slot_at 0 0], aggregator = None, next_ref = 2\<rparr>\<rparr>"
  by (simp add: two_slots_eval emit_def env_removing_def slot_at_def remove_def
      matches_def strict_eq_def array_splice_def Let_def)

lemma emit_first_throws_eval:
  "emit env_first_throws () (two_slots None) =
     \<lparr>calls = [(slot_at 0 0, Inl ''boom'')], agg_inputs = [], outcome = Inl ''boom'',
      after = two_slots None\<rparr>"
  by (simp add: two_slots_eval emit_def env_first_throws_def slot_at_def Let_def)

lemma emit_second_throws_eval:
  "emit env_second_throws () (three_slots (Some ARRAY)) =
     \<lparr>calls = [(slot_at 0 0, Inr 0), (slot_at 1 1, Inl ''boom'')], agg_inputs = [],
      outcome = Inl ''boom'', after = three_slots (Some ARRAY)\<rparr>"
  by (simp add: three_slots_eval emit_def env_second_throws_def slot_at_def Let_def)

lemma twice_added_eval:
  "twice_added agg = \<lparr>u_slots = [slot_at 0 0, slot_at 1 0], aggregator = agg, next_ref = 2\<rparr>"
  by (simp add: twice_added_def Signal_new_def add_def slot_at_def Let_def)

lemma emit_pure_eval:
  "emit env_pure () (three_slots (Some ARRAY)) =
     \<lparr>calls = [(slot_at 0 0, Inr 0), (slot_at 1 1, Inr 10), (slot_at 2 2, Inr 20)],
      agg_inputs = [[0, 10, 20]], outcome = Inr (Some [0, 10, 20]),
      after = three_slots (Some ARRAY)\<rparr>"
  by (simp add: three_slots_eval emit_def env_pure_def slot_at_def ARRAY_def Let_def)

section \<open>Facts about Promise.all\<close>

lemma all_step_settled:
  "capability st \<noteq> Pending \<Longrightarrow> capability (all_step j st) = capability st"
proof -
  assume a: "capability st \<noteq> Pending"
  obtain t i x where j: "j = (t, i, x)" by (cases j)
  show ?thesis
  proof (cases x)
    case (Inl e)
    with a j show ?thesis by (cases "capability st") simp_all
  next
    case (Inr v)
    with a j show ?thesis by (cases "capability st") (simp_all add: Let_def)
  qed
qed

lemma fold_settled:
  "capability st \<noteq> Pending \<Longrightarrow> capability (fold all_step js st) = capability st"
  by (induction js arbitrary: st) (simp_all add: all_step_settled)

lemma fold_fulfil_pending:
  assumes "\<forall>j\<in>set js. \<not> isl (snd (snd j))" "capability st = Pending"
    "length js < remaining st"
  shows "capability (fold all_step js st) = Pending
     \<and> remaining (fold all_step js st) = remaining st - length js"
  using assms
proof (induction js arbitrary: st)
  case Nil
  then show ?case by simp
next
  case (Cons j js)
  obtain t i x where j: "j = (t, i, x)" by (cases j)
  from Cons.prems(1) j obtain v where x: "x = Inr v" by (cases x) auto
  have c: "capability (all_step j st) = Pending"
    using Cons.prems(2,3) j x by (simp add: Let_def)
  have r: "remaining (all_step j st) = remaining st - 1"
    using j x by (simp add: Let_def)
  have "capability (fold all_step js (all_step j st)) = Pending
     \<and> remaining (fold all_step js (all_step j st)) = remaining (all_step j st) - length js"
    using Cons.prems(1,3) c r by (intro Cons.IH) simp_all
  with r show ?case by simp
qed

lemma fold_first_reject:
  assumes "\<forall>j\<in>set pre. \<not> isl (snd (snd j))" "capability st = Pending"
    "length pre < remaining st"
  shows "capability (fold all_step (pre @ (t, i, Inl e) # rest) st) = Rejected t e"
proof -
  have "capability (fold all_step pre st) = Pending"
    using fold_fulfil_pending [OF assms] by simp
  then have "capability (all_step (t, i, Inl e) (fold all_step pre st)) = Rejected t e"
    by simp
  then show ?thesis by (simp add: fold_settled)
qed

lemma fold_values:
  assumes "\<forall>j\<in>set js. fst (snd j) < n \<and> snd (snd j) = Inr (vs ! fst (snd j))"
    "length (all_values st) = n"
  shows "length (all_values (fold all_step js st)) = n
     \<and> (\<forall>k<n. all_values (fold all_step js st) ! k
           = (if k \<in> (\<lambda>j. fst (snd j)) ` set js then Some (vs ! k) else all_values st ! k))"
  using assms
proof (induction js arbitrary: st)
  case Nil
  then show ?case by simp
next
  case (Cons j js)
  obtain t i x where j: "j = (t, i, x)" by (cases j)
  from Cons.prems(1) j have i: "i < n" and x: "x = Inr (vs ! i)" by simp_all
  have v: "all_values (all_step j st) = (all_values st)[i := Some (vs ! i)]"
    using j x by (simp add: Let_def)
  then have l: "length (all_values (all_step j st)) = n" using Cons.prems(2) by simp
  have ih: "length (all_values (fold all_step js (all_step j st))) = n
     \<and> (\<forall>k<n. all_values (fold all_step js (all_step j st)) ! k
           = (if k \<in> (\<lambda>j. fst (snd j)) ` set js then Some (vs ! k)
              else all_values (all_step j st) ! k))"
    using Cons.prems(1) l by (intro Cons.IH) simp_all
  show ?case
  proof (intro conjI allI impI)
    show "length (all_values (fold all_step (j # js) st)) = n" using ih by simp
  next
    fix k assume k: "k < n"
    show "all_values (fold all_step (j # js) st) ! k
           = (if k \<in> (\<lambda>j. fst (snd j)) ` set (j # js) then Some (vs ! k) else all_values st ! k)"
    proof (cases "k = i")
      case True
      with ih k v Cons.prems(2) j show ?thesis by simp
    next
      case False
      with ih k v j show ?thesis by simp
    qed
  qed
qed

lemma fold_all_fulfilled:
  fixes js :: "('v, 'e) job list"
  assumes c: "\<forall>j\<in>set js. fst (snd j) < n \<and> snd (snd j) = Inr (vs ! fst (snd j))"
    and cover: "(\<lambda>j. fst (snd j)) ` set js = {..<n}"
    and len: "length js = n" "length vs = n" "0 < n"
  shows "\<exists>t. capability (fold all_step js (all_init n)) = Fulfilled t vs"
proof -
  from len obtain js' j where js: "js = js' @ [j]"
    by (cases js rule: rev_cases) auto
  obtain t i x where j: "j = (t, i, x)" by (cases j)
  from c js j have x: "x = Inr (vs ! i)" by simp
  define st0 :: "('v, 'e) all_state" where "st0 = all_init n"
  have st0: "capability st0 = Pending" "remaining st0 = n" "all_values st0 = replicate n None"
    using len(3) by (simp_all add: st0_def all_init_def)
  let ?st = "fold all_step js' st0"
  have "capability ?st = Pending \<and> remaining ?st = remaining st0 - length js'"
  proof (rule fold_fulfil_pending)
    show "\<forall>j\<in>set js'. \<not> isl (snd (snd j))" using c js by auto
    show "capability st0 = Pending" by (rule st0)
    show "length js' < remaining st0" using len(1) js st0 by simp
  qed
  then have p: "capability ?st = Pending" and r: "remaining ?st = 1"
    using len(1) js st0 by simp_all
  have f: "fold all_step js st0 = all_step j ?st" using js by simp
  have cap: "capability (all_step j ?st) = Fulfilled t (map the (all_values (all_step j ?st)))"
    using j x p r by (simp add: Let_def)
  have vals: "length (all_values (fold all_step js st0)) = n
     \<and> (\<forall>k<n. all_values (fold all_step js st0) ! k
           = (if k \<in> (\<lambda>j. fst (snd j)) ` set js then Some (vs ! k)
              else all_values st0 ! k))"
    using c st0 by (intro fold_values) simp_all
  have "map the (all_values (fold all_step js st0)) = vs"
  proof (rule nth_equalityI)
    show "length (map the (all_values (fold all_step js st0))) = length vs"
      using vals len(2) by simp
  next
    fix k assume "k < length (map the (all_values (fold all_step js st0)))"
    then have k: "k < n" using vals by simp
    then have "k \<in> (\<lambda>j. fst (snd j)) ` set js" using cover by simp
    with vals k show "map the (all_values (fold all_step js st0)) ! k = vs ! k"
      by simp
  qed
  with cap f show ?thesis by (simp add: st0_def)
qed

lemma jobs_fulfilled:
  "jobs_from k (map (\<lambda>p. Fulfilled (fst p) (snd p)) tvs)
     = map (\<lambda>q. (fst (snd q), fst q, Inr (snd (snd q)))) (enumerate k tvs)"
  by (induction tvs arbitrary: k) simp_all

lemma Promise_all_fulfilled:
  fixes tvs :: "(nat \<times> 'v) list"
  shows "\<exists>t. (Promise_all (map (\<lambda>p. Fulfilled (fst p) (snd p)) tvs) :: ('v list, 'e) promise)
           = Fulfilled t (map snd tvs)"
proof (cases tvs)
  case Nil
  then show ?thesis by (simp add: Promise_all_def all_init_def)
next
  case (Cons a list)
  define js :: "('v, 'e) job list"
    where "js = jobs_from 0 (map (\<lambda>p. Fulfilled (fst p) (snd p)) tvs)"
  have js: "js = map (\<lambda>q. (fst (snd q), fst q, Inr (snd (snd q)))) (enumerate 0 tvs)"
    unfolding js_def by (rule jobs_fulfilled)
  have c: "fst (snd j) < length tvs \<and> snd (snd j) = Inr (map snd tvs ! fst (snd j))"
    if "j \<in> set js" for j
  proof -
    from that js obtain q where q: "q \<in> set (enumerate 0 tvs)"
      "j = (fst (snd q), fst q, Inr (snd (snd q)))" by auto
    from q(1) have "fst q < length tvs" "tvs ! fst q = snd q"
      by (simp_all add: in_set_enumerate_eq)
    with q(2) show ?thesis by simp
  qed
  have "(\<lambda>j. fst (snd j)) ` set js = fst ` set (enumerate 0 tvs)"
    unfolding js by (simp add: image_image)
  also have "\<dots> = set (map fst (enumerate 0 tvs))" by (simp only: set_map)
  also have "\<dots> = {..<length tvs}" by (simp add: lessThan_atLeast0)
  finally have cover: "(\<lambda>j. fst (snd j)) ` set js = {..<length tvs}" .
  have len: "length js = length tvs" unfolding js by simp
  have "\<exists>t. capability (fold all_step (sort_key fst js) (all_init (length tvs)))
          = Fulfilled t (map snd tvs)"
  proof (rule fold_all_fulfilled)
    show "\<forall>j\<in>set (sort_key fst js). fst (snd j) < length tvs
        \<and> snd (snd j) = Inr (map snd tvs ! fst (snd j))"
      using c by simp
    show "(\<lambda>j. fst (snd j)) ` set (sort_key fst js) = {..<length tvs}"
      using cover by simp
    show "length (sort_key fst js) = length tvs" using len by simp
    show "length (map snd tvs) = length tvs" by simp
    show "0 < length tvs" using Cons by simp
  qed
  then show ?thesis by (simp add: Promise_all_def js_def)
qed

lemma jobs_length: "length (jobs_from k items) \<le> length items"
proof (induction items arbitrary: k)
  case Nil
  show ?case by simp
next
  case (Cons p ps)
  from Cons [of "Suc k"] show ?case by (cases p) simp_all
qed

lemma jobs_reject_sound:
  "(t, i, Inl e) \<in> set (jobs_from k items) \<Longrightarrow> Rejected t e \<in> set items"
proof (induction items arbitrary: k)
  case Nil
  then show ?case by simp
next
  case (Cons p ps)
  then show ?case by (cases p) auto
qed

lemma jobs_reject_complete:
  "Rejected t e \<in> set items \<Longrightarrow> \<exists>i. (t, i, Inl e) \<in> set (jobs_from k items)"
proof (induction items arbitrary: k)
  case Nil
  then show ?case by simp
next
  case (Cons p ps)
  show ?case
  proof (cases "p = Rejected t e")
    case True
    then show ?thesis by (intro exI [of _ k]) simp
  next
    case False
    with Cons.prems have "Rejected t e \<in> set ps" by simp
    from Cons.IH [OF this, of "Suc k"] obtain i where
      "(t, i, Inl e) \<in> set (jobs_from (Suc k) ps)" by blast
    then show ?thesis by (cases p) auto
  qed
qed

lemma Promise_all_rejected:
  fixes items :: "('v, 'e) promise list"
  assumes "Rejected t e \<in> set items"
  shows "\<exists>t' e'. Promise_all items = Rejected t' e' \<and> Rejected t' e' \<in> set items
     \<and> (\<forall>t'' e''. Rejected t'' e'' \<in> set items \<longrightarrow> t' \<le> t'')"
proof -
  define js where "js = sort_key fst (jobs_from 0 items)"
  have set_js: "set js = set (jobs_from 0 items)" by (simp add: js_def)
  from jobs_reject_complete [OF assms, of 0] obtain i where
    "(t, i, Inl e) \<in> set js" unfolding set_js by blast
  then have "\<exists>j\<in>set js. isl (snd (snd j))"
    by (intro bexI [of _ "(t, i, Inl e)"]) simp_all
  from split_list_first_prop [OF this] obtain pre j rest where sp: "js = pre @ j # rest"
    "isl (snd (snd j))" "\<forall>y\<in>set pre. \<not> isl (snd (snd y))"
    by blast
  obtain t' i' x where j: "j = (t', i', x)" by (cases j)
  with sp(2) obtain e' where x: "x = Inl e'" by (cases x) auto
  define st0 :: "('v, 'e) all_state" where "st0 = all_init (length items)"
  have "length pre < length js" using sp(1) by simp
  also have "\<dots> \<le> length items" using jobs_length [of 0 items] by (simp add: js_def)
  finally have lt: "length pre < remaining st0"
    by (simp add: st0_def all_init_def)
  have pend: "capability st0 = Pending"
    using assms by (cases items) (simp_all add: st0_def all_init_def)
  have "capability (fold all_step (pre @ (t', i', Inl e') # rest) st0) = Rejected t' e'"
    using sp(3) pend lt by (rule fold_first_reject)
  then have res: "Promise_all items = Rejected t' e'"
    using sp(1) j x by (simp add: Promise_all_def js_def [symmetric] st0_def)
  have "(t', i', Inl e') \<in> set js" using sp(1) j x by simp
  then have "(t', i', Inl e') \<in> set (jobs_from 0 items)" unfolding set_js .
  then have mem: "Rejected t' e' \<in> set items" by (rule jobs_reject_sound)
  have "sorted (map fst js)" unfolding js_def by (rule sorted_sort_key)
  then have "sorted (map fst pre @ t' # map fst rest)" using sp(1) j by simp
  then have srt: "\<forall>y\<in>set (map fst rest). t' \<le> y" by (simp add: sorted_append)
  have least: "t' \<le> t''" if "Rejected t'' e'' \<in> set items" for t'' e''
  proof -
    from jobs_reject_complete [OF that, of 0] obtain i'' where
      m: "(t'', i'', Inl e'') \<in> set js" unfolding set_js by blast
    have np: "(t'', i'', Inl e'') \<notin> set pre"
    proof
      assume a: "(t'', i'', Inl e'') \<in> set pre"
      from bspec [OF sp(3) a] show False by simp
    qed
    from m sp(1) np have "(t'', i'', Inl e'') = j \<or> (t'', i'', Inl e'') \<in> set rest" by simp
    then show ?thesis
    proof
      assume "(t'', i'', Inl e'') = j"
      with j show ?thesis by simp
    next
      assume a: "(t'', i'', Inl e'') \<in> set rest"
      from imageI [OF a, of fst] have "t'' \<in> set (map fst rest)" by simp
      with srt show ?thesis by blast
    qed
  qed
  from res mem least show ?thesis by blast
qed

section \<open>The claims\<close>

text \<open>
  C1, counterexample. The claim says that every emit call invokes exactly the slots
  registered when it began. With two slots registered and a first listener that throws,
  the second slot was registered when emit began and is not invoked.
\<close>

theorem emit_snapshot_counterexample:
  "slot_at 1 1 \<in> set (slots (two_slots None))
   \<and> slot_at 1 1 \<notin> set (invoked (emit env_first_throws () (two_slots None)))"
  by (simp add: emit_first_throws_eval invoked_def) (simp add: two_slots_eval slots_def slot_at_def)

text \<open>
  C1, as amended. For every emit call, the slots invoked are the slots registered at the
  moment emit begins, in snapshot order, up to and including the first whose listener
  throws, and all of them when no listener throws, whatever the listeners add or remove
  meanwhile. In the theorem: the slots invoked are a prefix of the snapshot; they are the
  whole snapshot when emit does not end with an exception; a call that throws is the last
  call, the slots invoked are then the snapshot up to and including that slot, and emit
  ends with that exception; when emit ends with an exception, the last call made is the
  one that threw it; a slot registered when emit began is invoked, at its position, unless
  a listener called before it throws, even if a listener removes it meanwhile; every slot
  invoked was registered when emit began, so a slot added during the emit is not invoked in
  that emit call.
\<close>

theorem emit_invokes_snapshot:
  "invoked (emit env args sig) = take (length (calls (emit env args sig))) (slots sig)
   \<and> (\<not> isl (outcome (emit env args sig)) \<longrightarrow> invoked (emit env args sig) = slots sig)
   \<and> (k < length (calls (emit env args sig)) \<and> snd (calls (emit env args sig) ! k) = Inl e
        \<longrightarrow> length (calls (emit env args sig)) = Suc k
          \<and> invoked (emit env args sig) = take (Suc k) (slots sig)
          \<and> outcome (emit env args sig) = Inl e)
   \<and> (outcome (emit env args sig) = Inl e'
        \<longrightarrow> calls (emit env args sig) \<noteq> []
          \<and> snd (last (calls (emit env args sig))) = Inl e')
   \<and> (j < length (slots sig)
        \<and> (\<forall>c\<in>set (take j (calls (emit env args sig))). \<not> isl (snd c))
        \<longrightarrow> j < length (invoked (emit env args sig))
          \<and> invoked (emit env args sig) ! j = slots sig ! j)
   \<and> set (invoked (emit env args sig)) \<subseteq> set (slots sig)
   \<and> (s \<in> set (slots (after (emit env args sig))) \<and> s \<notin> set (slots sig)
        \<longrightarrow> s \<notin> set (invoked (emit env args sig)))"
proof (intro conjI impI)
  show p: "invoked (emit env args sig) = take (length (calls (emit env args sig))) (slots sig)"
    by (rule emit_prefix)
  show "invoked (emit env args sig) = slots sig" if "\<not> isl (outcome (emit env args sig))"
    using that by (rule emit_no_throw)
  have "set (take (length (calls (emit env args sig))) (slots sig)) \<subseteq> set (slots sig)"
    by (rule set_take_subset)
  then show sub: "set (invoked (emit env args sig)) \<subseteq> set (slots sig)"
    using p by simp
  show "s \<notin> set (invoked (emit env args sig))"
    if "s \<in> set (slots (after (emit env args sig))) \<and> s \<notin> set (slots sig)"
    using that sub by blast
next
  assume a: "k < length (calls (emit env args sig)) \<and> snd (calls (emit env args sig) ! k) = Inl e"
  then have l: "length (calls (emit env args sig)) = Suc k \<and> outcome (emit env args sig) = Inl e"
    using emit_throw_stops [of k env args sig e] by simp
  then show "length (calls (emit env args sig)) = Suc k" by simp
  from l show "outcome (emit env args sig) = Inl e" by simp
  from l show "invoked (emit env args sig) = take (Suc k) (slots sig)"
    using emit_prefix [of env args sig] by simp
next
  assume a: "outcome (emit env args sig) = Inl e'"
  then show "calls (emit env args sig) \<noteq> []"
    using emit_throw_last_call [of env args sig e'] by simp
  from a show "snd (last (calls (emit env args sig))) = Inl e'"
    using emit_throw_last_call [of env args sig e'] by simp
next
  assume a: "j < length (slots sig)
        \<and> (\<forall>c\<in>set (take j (calls (emit env args sig))). \<not> isl (snd c))"
  then have l: "j < length (calls (emit env args sig))"
    using emit_progress [of j sig env args] by simp
  then show "j < length (invoked (emit env args sig))" by (simp add: invoked_def)
  from l a show "invoked (emit env args sig) ! j = slots sig ! j"
    by (simp add: emit_prefix)
qed

theorem emit_invokes_snapshot_witness:
  "\<not> isl (outcome (emit env_mutating () (two_slots None)))
   \<and> invoked (emit env_mutating () (two_slots None)) = slots (two_slots None)
   \<and> slot_at 2 2 \<in> set (slots (after (emit env_mutating () (two_slots None))))
   \<and> slot_at 2 2 \<notin> set (slots (two_slots None))
   \<and> slot_at 2 2 \<notin> set (invoked (emit env_mutating () (two_slots None)))
   \<and> slot_at 1 1 \<notin> set (slots (after (emit env_mutating () (two_slots None))))
   \<and> take 1 (calls (emit env_mutating () (two_slots None))) = [(slot_at 0 0, Inr 10)]
   \<and> invoked (emit env_mutating () (two_slots None)) ! 1 = slot_at 1 1
   \<and> snd (calls (emit env_second_throws () (three_slots (Some ARRAY))) ! 1) = Inl ''boom''
   \<and> length (calls (emit env_second_throws () (three_slots (Some ARRAY)))) = 2
   \<and> invoked (emit env_second_throws () (three_slots (Some ARRAY)))
       = [slot_at 0 0, slot_at 1 1]
   \<and> slot_at 2 2 \<in> set (slots (three_slots (Some ARRAY)))
   \<and> outcome (emit env_second_throws () (three_slots (Some ARRAY))) = Inl ''boom''
   \<and> snd (last (calls (emit env_second_throws () (three_slots (Some ARRAY))))) = Inl ''boom''"
  using emit_invokes_snapshot [where env = env_mutating and args = "()"
      and sig = "two_slots None" and s = "slot_at 2 2" and j = 1 and k = 0
      and e = "''boom''" and e' = "''boom''"]
    emit_invokes_snapshot [where env = env_second_throws and args = "()"
      and sig = "three_slots (Some ARRAY)" and s = "slot_at 2 2" and j = 1 and k = 1
      and e = "''boom''" and e' = "''boom''"]
  by (simp add: emit_mutating_eval emit_second_throws_eval)
     (simp add: two_slots_eval three_slots_eval slots_def slot_at_def)

text \<open>
  C2, counterexample. The claim says that a slot removed by a listener before its turn is
  not invoked in that emit call. With two slots registered and a first listener that
  removes the second: once the first listener has run the second slot is no longer
  registered, and emit calls it all the same.
\<close>

theorem removed_slot_counterexample:
  "slots (exec_ops (fst (env_removing 0 Undefined () (slots (two_slots None)))) (two_slots None))
     = [slot_at 0 0]
   \<and> calls (emit env_removing () (two_slots None))
     = [(slot_at 0 0, Inr 10), (slot_at 1 1, Inr 20)]"
  by (simp add: emit_removing_eval)
     (simp add: two_slots_eval env_removing_def slots_def slot_at_def remove_def matches_def
        strict_eq_def array_splice_def Let_def)

text \<open>
  C2, as amended. If, during an emit call, a listener removes a slot that has not yet been
  invoked in that emit call, the removed slot is invoked in that emit call all the same:
  a slot registered when emit begins is invoked at its position whenever none of the
  listeners called before it throws, whatever those listeners did to the signal.
\<close>

theorem removed_slot_still_invoked:
  assumes "slots sig = pre @ s # post"
    and "\<forall>c\<in>set (take (length pre) (calls (emit env args sig))). \<not> isl (snd c)"
  shows "length pre < length (invoked (emit env args sig))
     \<and> invoked (emit env args sig) ! length pre = s"
proof -
  have k: "length pre < length (slots sig)" using assms(1) by simp
  have l: "length pre < length (calls (emit env args sig))"
    using k assms(2) by (rule emit_progress)
  then have "invoked (emit env args sig) ! length pre = slots sig ! length pre"
    using k by (simp add: emit_prefix)
  with l assms(1) show ?thesis by (simp add: invoked_def)
qed

theorem removed_slot_still_invoked_witness:
  "slots (two_slots None) = [slot_at 0 0] @ slot_at 1 1 # []
   \<and> take (length [slot_at 0 0]) (calls (emit env_removing () (two_slots None)))
       = [(slot_at 0 0, Inr 10)]
   \<and> slot_at 1 1 \<notin> set (slots (after (emit env_removing () (two_slots None))))
   \<and> invoked (emit env_removing () (two_slots None)) ! 1 = slot_at 1 1"
  using removed_slot_still_invoked [of "two_slots None" "[slot_at 0 0]" "slot_at 1 1" "[]"
      env_removing "()"]
  by (simp add: emit_removing_eval) (simp add: two_slots_eval slots_def slot_at_def)

text \<open>
  C3, counterexample. The claim says that the slot sequence never holds two entries with
  identical callback and identical context. Two \<^verbatim>\<open>add\<close> calls with the same callback and
  no context leave two such entries.
\<close>

theorem no_duplicates_counterexample:
  "slots (twice_added None) = [slot_at 0 0, slot_at 1 0]
   \<and> callback (slot_at 0 0) = callback (slot_at 1 0)
   \<and> context (slot_at 0 0) = context (slot_at 1 0)"
  by (simp add: twice_added_eval slots_def slot_at_def)

text \<open>
  C3, as amended. After any sequence of add, remove and handle remove() operations, the
  slot sequence never contains the same slot object twice. It may contain several entries
  whose callbacks are identical and whose contexts are identical, one for each
  \<^verbatim>\<open>add\<close> call.
\<close>

theorem slot_objects_distinct:
  "distinct (map slot_ref (slots (exec_ops ops (Signal_new agg))))"
  using reachable_wf [of ops agg] by (simp add: wf_signal_def slots_def)

text \<open>
  C4. After any sequence of add, remove and handle remove() operations, the slots view is
  the view of the specification's registry after the same operations: the slots that were
  added and not removed since, in the order in which they were added.
\<close>

theorem slots_registered_in_order:
  "slots (exec_ops ops (Signal_new agg)) = spec_view (spec_ops ops spec_new)"
  using refines_exec_ops [OF refines_new, of ops agg] by (simp add: refines_def slots_def)

text \<open>
  C5. \<^verbatim>\<open>remove(callback, context)\<close> excises the earliest slot whose callback and context
  are both identity-equal to the arguments, changes nothing else and returns true; when
  no slot matches it returns false and leaves the signal as it was; when two slots match,
  a second call with the same arguments removes the second of them.
\<close>

theorem remove_first_match:
  "(slots sig = pre @ s # post \<and> (\<forall>t\<in>set pre. \<not> matches cb ctx t) \<and> matches cb ctx s
      \<longrightarrow> remove cb ctx sig = (True, sig\<lparr>u_slots := pre @ post\<rparr>))
   \<and> ((\<forall>t\<in>set (slots sig). \<not> matches cb ctx t) \<longrightarrow> remove cb ctx sig = (False, sig))
   \<and> (slots sig = pre @ s # mid @ s' # post' \<and> (\<forall>t\<in>set (pre @ mid). \<not> matches cb ctx t)
        \<and> matches cb ctx s \<and> matches cb ctx s'
      \<longrightarrow> fst (remove cb ctx (snd (remove cb ctx sig)))
          \<and> slots (snd (remove cb ctx (snd (remove cb ctx sig)))) = pre @ mid @ post')"
proof (intro conjI impI)
  assume "slots sig = pre @ s # post \<and> (\<forall>t\<in>set pre. \<not> matches cb ctx t) \<and> matches cb ctx s"
  then show "remove cb ctx sig = (True, sig\<lparr>u_slots := pre @ post\<rparr>)"
    by (simp add: slots_def remove_found)
next
  assume "\<forall>t\<in>set (slots sig). \<not> matches cb ctx t"
  then show "remove cb ctx sig = (False, sig)"
    by (simp add: slots_def remove_not_found)
next
  assume a: "slots sig = pre @ s # mid @ s' # post' \<and> (\<forall>t\<in>set (pre @ mid). \<not> matches cb ctx t)
        \<and> matches cb ctx s \<and> matches cb ctx s'"
  then have 1: "remove cb ctx sig = (True, sig\<lparr>u_slots := pre @ mid @ s' # post'\<rparr>)"
    by (simp add: slots_def remove_found)
  have 2: "remove cb ctx (sig\<lparr>u_slots := pre @ mid @ s' # post'\<rparr>)
            = (True, sig\<lparr>u_slots := (pre @ mid) @ post'\<rparr>)"
    using a remove_found [of "sig\<lparr>u_slots := pre @ mid @ s' # post'\<rparr>" "pre @ mid" s' post' cb ctx]
    by simp
  show "fst (remove cb ctx (snd (remove cb ctx sig)))" by (simp add: 1 2)
  show "slots (snd (remove cb ctx (snd (remove cb ctx sig)))) = pre @ mid @ post'"
    by (simp add: 1 2 slots_def)
qed

theorem remove_first_match_witness:
  "remove 0 Undefined (dup_slots None)
     = (True, (dup_slots None)\<lparr>u_slots := [slot_at 1 1, slot_at 2 0]\<rparr>)
   \<and> remove 7 Undefined (dup_slots None) = (False, dup_slots None)
   \<and> fst (remove 0 Undefined (snd (remove 0 Undefined (dup_slots None))))
   \<and> slots (snd (remove 0 Undefined (snd (remove 0 Undefined (dup_slots None))))) = [slot_at 1 1]"
  using remove_first_match [of "dup_slots None" "[]" "slot_at 0 0" "[slot_at 1 1, slot_at 2 0]"
      0 Undefined "[slot_at 1 1]" "slot_at 2 0" "[]"]
    remove_first_match [of "dup_slots None" "[]" "slot_at 0 0" "[slot_at 1 1, slot_at 2 0]"
      7 Undefined "[slot_at 1 1]" "slot_at 2 0" "[]"]
  by (auto simp add: dup_slots_eval slots_def matches_def strict_eq_def slot_at_def)

text \<open>
  C6, counterexample. The claim says that removing an already-removed slot by value leaves
  the state unchanged. \<^verbatim>\<open>remove(callback, context)\<close> looks for a pair, not for a slot:
  after two \<^verbatim>\<open>add\<close> calls with the same callback and the first slot removed through its
  handle, removing that slot by value finds the second slot, excises it and returns true.
\<close>

theorem removal_idempotent_counterexample:
  "slots (slot_remove (slot_at 0 0) (twice_added None)) = [slot_at 1 0]
   \<and> remove (callback (slot_at 0 0)) (context (slot_at 0 0))
        (slot_remove (slot_at 0 0) (twice_added None))
     = (True, \<lparr>u_slots = [], aggregator = None, next_ref = 2\<rparr>)"
  by (simp add: twice_added_eval slot_remove_def removeSlot_def indexOf_def remove_def
      matches_def strict_eq_def array_splice_def slots_def slot_at_def Let_def)

text \<open>
  C6, as amended. Slot removal never fails (no removal operation has a failing branch),
  and: \<^verbatim>\<open>add\<close> immediately followed by the returned handle's \<^verbatim>\<open>remove()\<close> leaves
  \<open>slots\<close> as before the \<^verbatim>\<open>add\<close>; invoking a handle's \<^verbatim>\<open>remove()\<close> a second time
  leaves the state unchanged; removing by value a slot that was removed through its handle
  or by value returns false and leaves the state unchanged, provided no other registered
  slot has the same callback and context.
\<close>

theorem removal_idempotent:
  "slots (slot_remove (fst (add cb ctx (exec_ops ops (Signal_new agg))))
            (snd (add cb ctx (exec_ops ops (Signal_new agg)))))
     = slots (exec_ops ops (Signal_new agg))
   \<and> slot_remove h (slot_remove h (exec_ops ops (Signal_new agg)))
     = slot_remove h (exec_ops ops (Signal_new agg))
   \<and> (s \<in> set (slots (exec_ops ops (Signal_new agg)))
      \<and> (\<forall>t\<in>set (slots (exec_ops ops (Signal_new agg))).
            slot_ref t \<noteq> slot_ref s \<longrightarrow> \<not> matches (callback s) (context s) t)
      \<longrightarrow> remove (callback s) (context s) (slot_remove s (exec_ops ops (Signal_new agg)))
            = (False, slot_remove s (exec_ops ops (Signal_new agg))))
   \<and> (length (filter (matches cb' ctx') (slots (exec_ops ops (Signal_new agg)))) \<le> 1
      \<longrightarrow> remove cb' ctx' (snd (remove cb' ctx' (exec_ops ops (Signal_new agg))))
            = (False, snd (remove cb' ctx' (exec_ops ops (Signal_new agg)))))"
proof -
  define sig where "sig = exec_ops ops (Signal_new agg)"
  have wf: "wf_signal sig" unfolding sig_def by (rule reachable_wf)
  have 1: "slots (slot_remove (fst (add cb ctx sig)) (snd (add cb ctx sig))) = slots sig"
  proof -
    let ?s = "\<lparr>slot_ref = next_ref sig, callback = cb, context = ctx\<rparr>"
    have a: "add cb ctx sig
              = (?s, sig\<lparr>u_slots := u_slots sig @ [?s], next_ref := Suc (next_ref sig)\<rparr>)"
      by (simp add: add_def Let_def)
    have "\<forall>t\<in>set (u_slots sig). slot_ref t \<noteq> slot_ref ?s"
      using wf by (auto simp: wf_signal_def list_all_iff)
    then have "removeSlot ?s (sig\<lparr>u_slots := u_slots sig @ [?s], next_ref := Suc (next_ref sig)\<rparr>)
        = sig\<lparr>u_slots := u_slots sig @ [], next_ref := Suc (next_ref sig)\<rparr>"
      using removeSlot_found [of "sig\<lparr>u_slots := u_slots sig @ [?s], next_ref := Suc (next_ref sig)\<rparr>"
          "u_slots sig" ?s "[]" ?s]
      by simp
    then show ?thesis by (simp add: a slot_remove_def slots_def)
  qed
  have 2: "slot_remove h (slot_remove h sig) = slot_remove h sig"
    using wf_removeSlot_gone [OF wf, of h] by (simp add: slot_remove_def removeSlot_not_found)
  have 3: "remove (callback s) (context s) (slot_remove s sig) = (False, slot_remove s sig)"
    if "s \<in> set (slots sig)
        \<and> (\<forall>t\<in>set (slots sig). slot_ref t \<noteq> slot_ref s \<longrightarrow> \<not> matches (callback s) (context s) t)"
  proof -
    from that obtain pre post where sp: "u_slots sig = pre @ s # post"
      by (auto simp: slots_def dest: split_list)
    have r: "removeSlot s sig = sig\<lparr>u_slots := pre @ post\<rparr>"
      using wf sp by (rule wf_removeSlot_split)
    have "distinct (map slot_ref (pre @ s # post))"
      using wf sp by (simp add: wf_signal_def)
    then have "\<forall>t\<in>set (pre @ post). slot_ref t \<noteq> slot_ref s" by (auto simp: image_iff)
    moreover have "set (pre @ post) \<subseteq> set (slots sig)" using sp by (auto simp: slots_def)
    ultimately have "\<forall>t\<in>set (pre @ post). \<not> matches (callback s) (context s) t"
      using that by blast
    then show ?thesis by (simp add: slot_remove_def r remove_not_found)
  qed
  have 4: "remove cb' ctx' (snd (remove cb' ctx' sig)) = (False, snd (remove cb' ctx' sig))"
    if le: "length (filter (matches cb' ctx') (slots sig)) \<le> 1"
  proof (cases "\<exists>t\<in>set (u_slots sig). matches cb' ctx' t")
    case False
    then show ?thesis by (simp add: remove_not_found)
  next
    case True
    then obtain pre t post where sp: "u_slots sig = pre @ t # post" "matches cb' ctx' t"
      "\<forall>x\<in>set pre. \<not> matches cb' ctx' x"
      by (metis split_list_first_prop)
    from le sp have "filter (matches cb' ctx') post = []" by (simp add: slots_def)
    then have "\<forall>x\<in>set post. \<not> matches cb' ctx' x" by (simp add: filter_empty_conv)
    with sp(3) have "\<forall>x\<in>set (pre @ post). \<not> matches cb' ctx' x" by auto
    moreover have "remove cb' ctx' sig = (True, sig\<lparr>u_slots := pre @ post\<rparr>)"
      using sp by (simp add: remove_found)
    ultimately show ?thesis by (simp add: remove_not_found)
  qed
  from 1 2 3 4 show ?thesis unfolding sig_def by blast
qed

theorem removal_idempotent_witness:
  "slots (slot_remove (fst (add 5 Null (dup_slots None))) (snd (add 5 Null (dup_slots None))))
     = slots (dup_slots None)
   \<and> slot_remove (slot_at 0 0) (slot_remove (slot_at 0 0) (dup_slots None))
     = slot_remove (slot_at 0 0) (dup_slots None)
   \<and> slot_at 1 1 \<in> set (slots (dup_slots None))
   \<and> remove 1 Undefined (slot_remove (slot_at 1 1) (dup_slots None))
     = (False, slot_remove (slot_at 1 1) (dup_slots None))
   \<and> length (filter (matches 1 Undefined) (slots (dup_slots None))) \<le> 1
   \<and> remove 1 Undefined (snd (remove 1 Undefined (dup_slots None)))
     = (False, snd (remove 1 Undefined (dup_slots None)))"
  using removal_idempotent [of 5 Null "[Add 0 Undefined, Add 1 Undefined, Add 0 Undefined]"
      "None :: (int list \<Rightarrow> int list) option"
      "slot_at 0 0" "slot_at 1 1" 1 Undefined, folded dup_slots_def]
  by (auto simp add: dup_slots_eval slots_def matches_def strict_eq_def slot_at_def)

text \<open>
  C7. For a signal constructed with the array-passthrough aggregator and an emit on N
  registered slots in which no listener throws or changes the signal, emit returns a
  sequence of exactly N elements whose i-th element is the return value of the listener of
  the i-th slot, every slot is invoked in order, and the aggregator is called once, with
  that whole sequence.
\<close>

theorem emit_array_passthrough:
  assumes "aggregator sig = Some ARRAY"
    and "\<forall>s\<in>set (slots sig). env (callback s) (context s) args (slots sig) = ([], Inr (ret s))"
  shows "outcome (emit env args sig) = Inr (Some (map ret (slots sig)))
     \<and> length (map ret (slots sig)) = length (slots sig)
     \<and> (\<forall>i<length (slots sig). map ret (slots sig) ! i = ret (slots sig ! i))
     \<and> invoked (emit env args sig) = slots sig
     \<and> agg_inputs (emit env args sig) = [map ret (slots sig)]"
proof -
  have "call_all env args (u_slots sig) sig
          = (sig, map (\<lambda>s. (s, Inr (ret s))) (u_slots sig), Inr (map ret (u_slots sig)))"
    using assms(2) by (intro call_all_pure) (simp add: slots_def)
  then have "emit env args sig = \<lparr>calls = map (\<lambda>s. (s, Inr (ret s))) (u_slots sig),
      agg_inputs = [map ret (u_slots sig)], outcome = Inr (Some (map ret (u_slots sig))),
      after = sig\<rparr>"
    using assms(1) by (simp add: emit_def Let_def ARRAY_def)
  then show ?thesis by (simp add: invoked_def slots_def comp_def)
qed

theorem emit_array_passthrough_witness:
  "aggregator (three_slots (Some ARRAY)) = Some ARRAY
   \<and> slots (three_slots (Some ARRAY)) = [slot_at 0 0, slot_at 1 1, slot_at 2 2]
   \<and> outcome (emit env_pure () (three_slots (Some ARRAY))) = Inr (Some [0, 10, 20])
   \<and> invoked (emit env_pure () (three_slots (Some ARRAY))) = slots (three_slots (Some ARRAY))
   \<and> agg_inputs (emit env_pure () (three_slots (Some ARRAY))) = [[0, 10, 20]]"
  using emit_array_passthrough [of "three_slots (Some ARRAY)" env_pure "()"
      "\<lambda>s. 10 * int (callback s)"]
  by (simp add: three_slots_eval slots_def env_pure_def slot_at_def)

text \<open>
  C8. For every emit call in which the k-th listener called throws, that call is the last
  one: the slots invoked are the first k+1 of the snapshot and no slot after position k is,
  the aggregator is not applied, and emit ends with that same exception. The loop of emit
  has no handler.
\<close>

theorem emit_throw_aborts:
  "k < length (calls (emit env args sig)) \<and> snd (calls (emit env args sig) ! k) = Inl e \<longrightarrow>
     length (calls (emit env args sig)) = Suc k
     \<and> invoked (emit env args sig) = take (Suc k) (slots sig)
     \<and> agg_inputs (emit env args sig) = []
     \<and> outcome (emit env args sig) = Inl e"
proof
  assume a: "k < length (calls (emit env args sig)) \<and> snd (calls (emit env args sig) ! k) = Inl e"
  have l: "length (calls (emit env args sig)) = Suc k \<and> agg_inputs (emit env args sig) = []
     \<and> outcome (emit env args sig) = Inl e"
    using a by (cases rule: emit_cases [of env args sig]) (auto dest: call_all_throw_last)
  then show "length (calls (emit env args sig)) = Suc k
     \<and> invoked (emit env args sig) = take (Suc k) (slots sig)
     \<and> agg_inputs (emit env args sig) = []
     \<and> outcome (emit env args sig) = Inl e"
    using emit_prefix [of env args sig] by simp
qed

theorem emit_throw_aborts_witness:
  "1 < length (calls (emit env_second_throws () (three_slots (Some ARRAY))))
   \<and> snd (calls (emit env_second_throws () (three_slots (Some ARRAY))) ! 1) = Inl ''boom''
   \<and> invoked (emit env_second_throws () (three_slots (Some ARRAY))) = [slot_at 0 0, slot_at 1 1]
   \<and> slot_at 2 2 \<in> set (slots (three_slots (Some ARRAY)))
   \<and> agg_inputs (emit env_second_throws () (three_slots (Some ARRAY))) = []
   \<and> outcome (emit env_second_throws () (three_slots (Some ARRAY))) = Inl ''boom''"
  using emit_throw_aborts [of 1 env_second_throws "()" "three_slots (Some ARRAY)" "''boom''"]
  by (simp add: emit_second_throws_eval) (simp add: three_slots_eval slots_def)

text \<open>
  C9. Given promises that are all fulfilled, the value-preserving await-all aggregator is
  fulfilled with their values in list order, whatever the order in which they settle; if
  any promise in the list is rejected, its result is rejected with the reason of a rejected
  promise of the list, the first to be seen, so with that same reason when one promise
  fails or all failures carry it. The value-discarding aggregator is fulfilled and
  rejected in the same cases and with the same reason, and its value is \<^verbatim>\<open>undefined\<close>.
\<close>

theorem await_all_results:
  fixes tvs :: "(nat \<times> 'v) list" and items :: "('v, 'e) promise list"
    and tus :: "(nat \<times> unit) list" and voids :: "(unit, 'e) promise list"
  shows
  "(\<exists>t'. (AWAIT (map (\<lambda>p. Fulfilled (fst p) (snd p)) tvs) :: ('v list, 'e) promise)
           = Fulfilled t' (map snd tvs))
   \<and> (Rejected t e \<in> set items \<longrightarrow>
        (\<exists>t' e'. AWAIT items = Rejected t' e' \<and> Rejected t' e' \<in> set items
           \<and> (\<forall>t'' e''. Rejected t'' e'' \<in> set items \<longrightarrow> t' \<le> t'')))
   \<and> (Rejected t e \<in> set items \<and> (\<forall>t'' e''. Rejected t'' e'' \<in> set items \<longrightarrow> e'' = e) \<longrightarrow>
        (\<exists>t'. AWAIT items = Rejected t' e))
   \<and> (\<exists>t'. (AWAIT_VOID (map (\<lambda>p. Fulfilled (fst p) (snd p)) tus) :: (unit, 'e) promise)
           = Fulfilled t' ())
   \<and> (Rejected t e \<in> set voids \<longrightarrow>
        (\<exists>t' e'. AWAIT_VOID voids = Rejected t' e' \<and> AWAIT voids = Rejected t' e'
           \<and> Rejected t' e' \<in> set voids
           \<and> (\<forall>t'' e''. Rejected t'' e'' \<in> set voids \<longrightarrow> t' \<le> t'')))"
proof (intro conjI impI)
  show "\<exists>t'. (AWAIT (map (\<lambda>p. Fulfilled (fst p) (snd p)) tvs) :: ('v list, 'e) promise)
           = Fulfilled t' (map snd tvs)"
    unfolding AWAIT_def by (rule Promise_all_fulfilled)
  show "\<exists>t' e'. AWAIT items = Rejected t' e' \<and> Rejected t' e' \<in> set items
           \<and> (\<forall>t'' e''. Rejected t'' e'' \<in> set items \<longrightarrow> t' \<le> t'')"
    if "Rejected t e \<in> set items"
    unfolding AWAIT_def using that by (rule Promise_all_rejected)
  show "\<exists>t'. AWAIT items = Rejected t' e"
    if a: "Rejected t e \<in> set items \<and> (\<forall>t'' e''. Rejected t'' e'' \<in> set items \<longrightarrow> e'' = e)"
  proof -
    from a Promise_all_rejected [of t e items] obtain t' e' where
      "Promise_all items = Rejected t' e'" "Rejected t' e' \<in> set items" by blast
    with a show ?thesis unfolding AWAIT_def by blast
  qed
  show "\<exists>t'. (AWAIT_VOID (map (\<lambda>p. Fulfilled (fst p) (snd p)) tus) :: (unit, 'e) promise)
           = Fulfilled t' ()"
  proof -
    from Promise_all_fulfilled [of tus] obtain t' where
      "(Promise_all (map (\<lambda>p. Fulfilled (fst p) (snd p)) tus) :: (unit list, 'e) promise)
         = Fulfilled t' (map snd tus)" by blast
    then show ?thesis by (simp add: AWAIT_VOID_def)
  qed
  show "\<exists>t' e'. AWAIT_VOID voids = Rejected t' e' \<and> AWAIT voids = Rejected t' e'
           \<and> Rejected t' e' \<in> set voids
           \<and> (\<forall>t'' e''. Rejected t'' e'' \<in> set voids \<longrightarrow> t' \<le> t'')"
    if "Rejected t e \<in> set voids"
  proof -
    from that Promise_all_rejected [of t e voids] obtain t' e' where
      r: "Promise_all voids = Rejected t' e'" "Rejected t' e' \<in> set voids"
      "\<forall>t'' e''. Rejected t'' e'' \<in> set voids \<longrightarrow> t' \<le> t''" by blast
    then have "AWAIT_VOID voids = Rejected t' e'" by (simp add: AWAIT_VOID_def)
    with r show ?thesis unfolding AWAIT_def by blast
  qed
qed

theorem await_all_results_witness:
  "AWAIT (map (\<lambda>p. Fulfilled (fst p) (snd p)) [(3, 1), (1, 2), (2, 3)])
     = (Fulfilled 3 [1, 2, 3] :: (int list, string) promise)
   \<and> Rejected 5 ''err'' \<in> set [Fulfilled 3 (1 :: int), Rejected 5 ''err'', Fulfilled 2 3]
   \<and> AWAIT [Fulfilled 3 (1 :: int), Rejected 5 ''err'', Fulfilled 2 3] = Rejected 5 ''err''
   \<and> AWAIT [Fulfilled 3 (1 :: int), Rejected 5 ''late'', Pending, Rejected 2 ''early'']
     = Rejected 2 ''early''
   \<and> AWAIT_VOID (map (\<lambda>p. Fulfilled (fst p) (snd p)) [(3, ()), (1, ())])
     = (Fulfilled 3 () :: (unit, string) promise)
   \<and> AWAIT_VOID [Fulfilled 3 (), Rejected 5 ''err''] = Rejected 5 ''err''"
  using await_all_results [where tvs = "[(3, 1 :: int), (1, 2), (2, 3)]" and t = 5
      and e = "''err''" and items = "[Fulfilled 3 (1 :: int), Rejected 5 ''err'', Fulfilled 2 3]"
      and tus = "[(3, ()), (1, ())]" and voids = "[Fulfilled 3 (), Rejected 5 ''err'']"]
  by (simp add: AWAIT_def AWAIT_VOID_def Promise_all_def all_init_def)

text \<open>
  C10. The \<^verbatim>\<open>remove()\<close> of a registered slot excises exactly that slot object, found by
  its identity, wherever it stands: the slots before it and after it stay registered, also
  those with the same callback and context, and nothing else in the signal changes.
\<close>

theorem handle_removes_own_slot:
  "slots (exec_ops ops (Signal_new agg)) = pre @ s # post \<Longrightarrow>
     slot_remove s (exec_ops ops (Signal_new agg))
       = (exec_ops ops (Signal_new agg))\<lparr>u_slots := pre @ post\<rparr>"
  using wf_removeSlot_split [OF reachable_wf, of ops agg pre s post]
  by (simp add: slot_remove_def slots_def)

theorem handle_removes_own_slot_witness:
  "slots (dup_slots None) = [slot_at 0 0, slot_at 1 1] @ slot_at 2 0 # []
   \<and> matches 0 Undefined (slot_at 0 0) \<and> matches 0 Undefined (slot_at 2 0)
   \<and> slots (slot_remove (slot_at 2 0) (dup_slots None)) = [slot_at 0 0, slot_at 1 1]
   \<and> slots (snd (remove 0 Undefined (dup_slots None))) = [slot_at 1 1, slot_at 2 0]"
  using handle_removes_own_slot [of "[Add 0 Undefined, Add 1 Undefined, Add 0 Undefined]"
      "None :: (int list \<Rightarrow> int list) option"
      "[slot_at 0 0, slot_at 1 1]" "slot_at 2 0" "[]", folded dup_slots_def]
  by (simp add: dup_slots_eval slots_def)
     (simp add: matches_def strict_eq_def slot_at_def remove_def array_splice_def Let_def)

end
